theory Spec2Isabelle
  imports Main
begin

section \<open>Labels, errors and segments\<close>

text \<open>
  A prediction is what \<open>run_inference\<close> returns: the string \<open>'A'\<close>, the string \<open>'B'\<close>, or
  \<open>None\<close> when the inference call failed or printed neither letter. \<open>Unknown\<close> stands for
  Python's \<open>None\<close>.
\<close>

datatype label = A | B | Unknown

datatype error = IndexError | ZeroDivisionError | ExportError

text \<open>A segment is the pair \<open>(label, indices)\<close> that the grouping loop appends.\<close>

type_synonym segment = "label \<times> nat list"

section \<open>apply_forgiving_heuristic\<close>

text \<open>
  Step 1, the loop \<open>for i in range(1, len(predictions))\<close>: the arguments are the
  predictions still to be read, the loop index \<open>i\<close>, \<open>current_label\<close>, \<open>current_indices\<close>
  and \<open>segments\<close>. When the loop is over, the last segment is appended.
\<close>

fun group_loop :: "label list \<Rightarrow> nat \<Rightarrow> label \<Rightarrow> nat list \<Rightarrow> segment list \<Rightarrow> segment list" where
  "group_loop [] i current_label current_indices segments =
     segments @ [(current_label, current_indices)]"
| "group_loop (p # ps) i current_label current_indices segments =
     (if p = current_label
      then group_loop ps (Suc i) current_label (current_indices @ [i]) segments
      else group_loop ps (Suc i) p [i] (segments @ [(current_label, current_indices)]))"

text \<open>\<open>predictions[0]\<close> raises \<open>IndexError\<close> on the empty list.\<close>

definition segments_of :: "label list \<Rightarrow> error + segment list" where
  "segments_of predictions =
     (case predictions of
        [] \<Rightarrow> Inl IndexError
      | p # ps \<Rightarrow> Inr (group_loop ps 1 p [0] []))"

text \<open>The flipped label: \<open>'B' if label == 'A' else 'A'\<close>.\<close>

definition new_label :: "label \<Rightarrow> label" where
  "new_label l = (if l = A then B else A)"

text \<open>
  The body of the loop of step 2 at index \<open>i\<close>. It reads \<open>segments[i - 1]\<close>,
  \<open>segments[i]\<close> and \<open>segments[i + 1]\<close> from the list as it is at that moment and
  overwrites \<open>segments[i]\<close> in place.
\<close>

definition flip_step :: "int \<Rightarrow> int \<Rightarrow> nat \<Rightarrow> segment list \<Rightarrow> segment list" where
  "flip_step min_surround_chunks max_flip_length i segments =
     (let (l, indices) = segments ! i;
          (prev_label, prev_indices) = segments ! (i - 1);
          (next_label, next_indices) = segments ! (i + 1)
      in if int (length indices) \<le> max_flip_length \<and> prev_label \<noteq> l \<and> next_label \<noteq> l
         then (if min_surround_chunks \<le> int (length prev_indices)
                  \<and> min_surround_chunks \<le> int (length next_indices)
               then segments[i := (new_label l, indices)]
               else segments)
         else segments)"

text \<open>Step 2: \<open>for i in range(1, len(segments) - 1)\<close>.\<close>

definition flip_loop :: "int \<Rightarrow> int \<Rightarrow> segment list \<Rightarrow> segment list" where
  "flip_loop min_surround_chunks max_flip_length segments =
     fold (flip_step min_surround_chunks max_flip_length) [1..<length segments - 1] segments"

text \<open>Step 3: every segment's label is appended once per index of the segment.\<close>

definition expand :: "segment list \<Rightarrow> label list" where
  "expand segments = concat (map (\<lambda>(l, indices). replicate (length indices) l) segments)"

definition apply_forgiving_heuristic :: "label list \<Rightarrow> int \<Rightarrow> int \<Rightarrow> error + label list" where
  "apply_forgiving_heuristic predictions min_surround_chunks max_flip_length =
     (case segments_of predictions of
        Inl e \<Rightarrow> Inl e
      | Inr segments \<Rightarrow> Inr (expand (flip_loop min_surround_chunks max_flip_length segments)))"

section \<open>The single pass of the specification\<close>

text \<open>
  The specification's reading of step 2, for comparison with \<open>flip_loop\<close>: the flip
  condition of an interior segment evaluated on the segment list as step 1 produced it,
  and a pass that decides every interior segment from that unmodified list. In the
  specification the opposite category is defined for the two categories only: \<open>Unknown\<close>
  has no opposite, and a segment labelled \<open>Unknown\<close> is not eligible for a flip.
\<close>

definition spec_flip_condition :: "int \<Rightarrow> int \<Rightarrow> segment list \<Rightarrow> nat \<Rightarrow> bool" where
  "spec_flip_condition min_surround_chunks max_flip_length segments i \<longleftrightarrow>
     int (length (snd (segments ! i))) \<le> max_flip_length
     \<and> fst (segments ! (i - 1)) \<noteq> fst (segments ! i)
     \<and> fst (segments ! (i + 1)) \<noteq> fst (segments ! i)
     \<and> min_surround_chunks \<le> int (length (snd (segments ! (i - 1))))
     \<and> min_surround_chunks \<le> int (length (snd (segments ! (i + 1))))"

fun opposite_category :: "label \<Rightarrow> label option" where
  "opposite_category A = Some B"
| "opposite_category B = Some A"
| "opposite_category Unknown = None"

definition reference_pass :: "int \<Rightarrow> int \<Rightarrow> segment list \<Rightarrow> segment list" where
  "reference_pass min_surround_chunks max_flip_length segments =
     map (\<lambda>i. case opposite_category (fst (segments ! i)) of
                 None \<Rightarrow> segments ! i
               | Some other_category \<Rightarrow>
                   if 0 < i \<and> i + 1 < length segments
                      \<and> spec_flip_condition min_surround_chunks max_flip_length segments i
                   then (other_category, snd (segments ! i))
                   else segments ! i)
       [0..<length segments]"

definition reference_heuristic :: "label list \<Rightarrow> int \<Rightarrow> int \<Rightarrow> error + label list" where
  "reference_heuristic predictions min_surround_chunks max_flip_length =
     (case segments_of predictions of
        Inl e \<Rightarrow> Inl e
      | Inr segments \<Rightarrow> Inr (expand (reference_pass min_surround_chunks max_flip_length segments)))"

section \<open>run_inference and process_chunk\<close>

text \<open>
  What \<open>subprocess.run(..., check=True)\<close> hands to \<open>run_inference\<close>: the standard
  output of a call that exited with status 0, or the exception \<open>CalledProcessError\<close>
  that the \<open>except\<close> clause catches.
\<close>

datatype run_result = Completed string | CalledProcessError

text \<open>The ASCII characters that \<open>str.strip()\<close> removes from both ends.\<close>

definition is_space :: "char \<Rightarrow> bool" where
  "is_space c \<longleftrightarrow>
     c \<in> {CHR '' '', CHR 0x09, CHR 0x0A, CHR 0x0B, CHR 0x0C, CHR 0x0D,
           CHR 0x1C, CHR 0x1D, CHR 0x1E, CHR 0x1F}"

definition strip :: "string \<Rightarrow> string" where
  "strip s = rev (dropWhile is_space (rev (dropWhile is_space s)))"

text \<open>\<open>'A' in output\<close> is tested before \<open>'B' in output\<close>; anything else gives \<open>None\<close>.\<close>

definition run_inference :: "run_result \<Rightarrow> label" where
  "run_inference r =
     (case r of
        Completed stdout \<Rightarrow>
          (let output = strip stdout
           in if CHR ''A'' \<in> set output then A
              else if CHR ''B'' \<in> set output then B
              else Unknown)
      | CalledProcessError \<Rightarrow> Unknown)"

text \<open>
  \<open>process_chunk\<close> writes the chunk to a temporary file, runs the inference on it,
  removes the file and returns the index with the predicted class. The outcome of the
  inference call made for chunk \<open>chunk_index\<close> is \<open>outcome chunk_index chunk\<close>; writing
  and removing the temporary file are taken to succeed.
\<close>

definition process_chunk :: "(nat \<Rightarrow> 'a list \<Rightarrow> run_result) \<Rightarrow> nat \<Rightarrow> 'a list \<Rightarrow> nat \<times> label" where
  "process_chunk outcome chunk_index chunk = (chunk_index, run_inference (outcome chunk_index chunk))"

section \<open>process_audio: chunking, classification, saving\<close>

text \<open>
  An audio segment of \<open>pydub\<close> is a list with one element per millisecond:
  \<open>len(audio)\<close> is its length and \<open>+\<close> is concatenation. \<open>audio[start_ms:end_ms]\<close> cuts both bounds down to
  \<open>len(audio)\<close> and returns the milliseconds between them; the loop of \<open>process_audio\<close>
  only calls it with bounds that are not negative.
\<close>

definition slice_ms :: "'a list \<Rightarrow> int \<Rightarrow> int \<Rightarrow> 'a list" where
  "slice_ms audio start_ms end_ms =
     (let start = min start_ms (int (length audio));
          stop = min end_ms (int (length audio))
      in take (nat stop - nat start) (drop (nat start) audio))"

text \<open>
  Lines 97 to 112. \<open>total_length_ms // chunk_length_ms\<close> raises \<open>ZeroDivisionError\<close>
  when the chunk length is 0; \<open>range(num_chunks)\<close> is empty when \<open>num_chunks\<close> is
  negative.
\<close>

definition make_chunks :: "'a list \<Rightarrow> int \<Rightarrow> error + 'a list list" where
  "make_chunks audio chunk_length_sec =
     (let total_length_ms = int (length audio);
          chunk_length_ms = chunk_length_sec * 1000
      in if chunk_length_ms = 0 then Inl ZeroDivisionError
         else (let num_chunks = total_length_ms div chunk_length_ms
               in Inr (map (\<lambda>i. let start_ms = int i * chunk_length_ms;
                                     end_ms = start_ms + chunk_length_ms
                                 in slice_ms audio start_ms end_ms)
                         [0..<nat num_chunks])))"

text \<open>
  Lines 114 to 122. \<open>predictions\<close> starts as \<open>[None] * num_chunks\<close>. The futures are
  taken in the order in which they complete, \<open>completion_order\<close>; \<open>store_result\<close> is
  the body of the loop for the future of chunk \<open>i\<close>, which stores the predicted class at
  the index the future returns.
\<close>

definition store_result ::
    "(nat \<Rightarrow> 'a list \<Rightarrow> run_result) \<Rightarrow> 'a list list \<Rightarrow> nat \<Rightarrow> label list \<Rightarrow> label list" where
  "store_result outcome chunks i predictions =
     (let (chunk_index, predicted_class) = process_chunk outcome i (chunks ! i)
      in predictions[chunk_index := predicted_class])"

definition classify_chunks ::
    "(nat \<Rightarrow> 'a list \<Rightarrow> run_result) \<Rightarrow> nat list \<Rightarrow> 'a list list \<Rightarrow> label list" where
  "classify_chunks outcome completion_order chunks =
     fold (store_result outcome chunks) completion_order (replicate (length chunks) Unknown)"

section \<open>reconstruct_audio\<close>

text \<open>
  A file written by \<open>chunk.export(chunk_path, format="wav")\<close>: the directory
  \<open>type_dirs[label]\<close>, the name \<open>chunk_{i}_{label}.wav\<close> and the audio written.
\<close>

record 'a chunk_file =
  file_dir :: label
  file_index :: nat
  file_label :: label
  file_data :: "'a list"

text \<open>
  The loop \<open>for i, chunk in enumerate(chunks)\<close>. Its state is the index \<open>i\<close>, the chunks
  still to come, \<open>combined_audio\<close> and the files written so far. \<open>corrected_predictions[i]\<close>
  raises \<open>IndexError\<close> beyond the end of the list. Only \<open>'A'\<close> and \<open>'B'\<close> are keys of
  \<open>type_dirs\<close>. \<open>export_ok i\<close> tells whether the export of chunk \<open>i\<close> succeeds; an export
  that raises ends the function, and the files written before stay.
\<close>

fun reconstruct_loop ::
    "(nat \<Rightarrow> bool) \<Rightarrow> label list \<Rightarrow> label \<Rightarrow> nat \<Rightarrow> 'a list list \<Rightarrow> 'a list option
       \<Rightarrow> 'a chunk_file list \<Rightarrow> 'a chunk_file list \<times> (error + 'a list option)" where
  "reconstruct_loop export_ok corrected_predictions desired_label i [] combined_audio files =
     (files, Inr combined_audio)"
| "reconstruct_loop export_ok corrected_predictions desired_label i (chunk # rest)
       combined_audio files =
     (if length corrected_predictions \<le> i then (files, Inl IndexError)
      else (let l = corrected_predictions ! i;
                combined_audio' =
                  (if l = desired_label
                   then (case combined_audio of
                           None \<Rightarrow> Some chunk
                         | Some track \<Rightarrow> Some (track @ chunk))
                   else combined_audio)
            in if l = A \<or> l = B
               then (if export_ok i
                     then reconstruct_loop export_ok corrected_predictions desired_label (Suc i)
                            rest combined_audio'
                            (files @ [\<lparr>file_dir = l, file_index = i, file_label = l,
                                        file_data = chunk\<rparr>])
                     else (files, Inl ExportError))
               else reconstruct_loop export_ok corrected_predictions desired_label (Suc i)
                      rest combined_audio' files))"

definition reconstruct_audio ::
    "(nat \<Rightarrow> bool) \<Rightarrow> label list \<Rightarrow> 'a list list \<Rightarrow> label
       \<Rightarrow> 'a chunk_file list \<times> (error + 'a list option)" where
  "reconstruct_audio export_ok corrected_predictions chunks desired_label =
     reconstruct_loop export_ok corrected_predictions desired_label 0 chunks None []"

text \<open>
  Lines 127 to 134. \<open>if combined_audio:\<close> is false for \<open>None\<close> and for an audio segment
  of length 0. \<open>save_ok\<close> tells whether the export of the combined track succeeds; its
  failure is caught and printed. The result is the content of the output file, if one was
  written, and the message printed.
\<close>

datatype notice = Saved | ErrorSaving | NoSegmentsFound

definition save_combined :: "bool \<Rightarrow> 'a list option \<Rightarrow> 'a list option \<times> notice" where
  "save_combined save_ok combined_audio =
     (case combined_audio of
        None \<Rightarrow> (None, NoSegmentsFound)
      | Some track \<Rightarrow>
          if track = [] then (None, NoSegmentsFound)
          else if save_ok then (Some track, Saved)
          else (None, ErrorSaving))"

text \<open>
  \<open>process_audio\<close> from line 97 on, for an audio that was loaded: the chunk files written
  and either the error that ended the run or the outcome of saving the combined track.
\<close>

definition process_audio ::
    "'a list \<Rightarrow> int \<Rightarrow> (nat \<Rightarrow> 'a list \<Rightarrow> run_result) \<Rightarrow> nat list \<Rightarrow> (nat \<Rightarrow> bool) \<Rightarrow> bool
       \<Rightarrow> 'a chunk_file list \<times> (error + 'a list option \<times> notice)" where
  "process_audio audio chunk_length_sec outcome completion_order export_ok save_ok =
     (case make_chunks audio chunk_length_sec of
        Inl e \<Rightarrow> ([], Inl e)
      | Inr chunks \<Rightarrow>
          (let predictions = classify_chunks outcome completion_order chunks
           in case apply_forgiving_heuristic predictions 3 2 of
                Inl e \<Rightarrow> ([], Inl e)
              | Inr corrected_predictions \<Rightarrow>
                  (case reconstruct_audio export_ok corrected_predictions chunks B of
                     (files, Inl e) \<Rightarrow> (files, Inl e)
                   | (files, Inr combined_audio) \<Rightarrow>
                       (files, Inr (save_combined save_ok combined_audio)))))"

text \<open>Export outcomes used at concrete inputs: no export fails, or only that of chunk \<open>k\<close>.\<close>

definition exports_succeed :: "nat \<Rightarrow> bool" where
  "exports_succeed i = True"

definition export_fails_at :: "nat \<Rightarrow> nat \<Rightarrow> bool" where
  "export_fails_at k i \<longleftrightarrow> i \<noteq> k"

text \<open>
  Inference outcomes used at concrete inputs: every call prints a prediction of \<open>B\<close>,
  except the call for chunk \<open>k\<close>, which exits with an error or prints neither letter.
\<close>

definition inference_failing_at :: "nat \<Rightarrow> nat \<Rightarrow> 'a list \<Rightarrow> run_result" where
  "inference_failing_at k i chunk =
     (if i = k then CalledProcessError else Completed ''Prediction: B'')"


section \<open>Facts about the grouping loop\<close>

lemma group_loop_indices:
  "concat (map snd (group_loop ps i cur idxs segs)) =
     concat (map snd segs) @ idxs @ [i..<i + length ps]"
proof (induction ps arbitrary: i cur idxs segs)
  case Nil
  show ?case by simp
next
  case (Cons p ps)
  have "i < i + length (p # ps)" by simp
  then have "[i..<i + length (p # ps)] = i # [Suc i..<Suc i + length ps]"
    by (simp only: upt_conv_Cons) simp
  with Cons show ?case by simp
qed

lemma expand_append: "expand (xs @ ys) = expand xs @ expand ys"
  by (simp add: expand_def)

lemma expand_single: "expand [(l, ix)] = replicate (length ix) l"
  by (simp add: expand_def)

lemma group_loop_expand:
  "expand (group_loop ps i cur idxs segs) = expand segs @ replicate (length idxs) cur @ ps"
proof (induction ps arbitrary: i cur idxs segs)
  case Nil
  show ?case by (simp add: expand_append expand_single)
next
  case (Cons p ps)
  show ?case
  proof (cases "p = cur")
    case True
    then show ?thesis
      using Cons [of "Suc i" cur "idxs @ [i]" segs]
      by (simp add: replicate_append_same)
  next
    case False
    then show ?thesis
      using Cons [of "Suc i" p "[i]" "segs @ [(cur, idxs)]"]
      by (simp add: expand_append expand_single)
  qed
qed

lemma group_loop_nonempty:
  "idxs \<noteq> [] \<Longrightarrow> \<forall>s\<in>set segs. snd s \<noteq> [] \<Longrightarrow>
     \<forall>s\<in>set (group_loop ps i cur idxs segs). snd s \<noteq> []"
proof (induction ps arbitrary: i cur idxs segs)
  case Nil
  then show ?case by simp
next
  case (Cons p ps)
  show ?case
  proof (cases "p = cur")
    case True
    have "idxs @ [i] \<noteq> []" by simp
    from Cons.IH [OF this Cons.prems(2)] True show ?thesis by simp
  next
    case False
    have 1: "[i] \<noteq> []" by simp
    have 2: "\<forall>s\<in>set (segs @ [(cur, idxs)]). snd s \<noteq> []"
      using Cons.prems by simp
    from Cons.IH [OF 1 2] False show ?thesis by simp
  qed
qed

lemma group_loop_distinct_adj:
  "distinct_adj (map fst segs @ [cur]) \<Longrightarrow>
     distinct_adj (map fst (group_loop ps i cur idxs segs))"
proof (induction ps arbitrary: i cur idxs segs)
  case Nil
  then show ?case by simp
next
  case (Cons p ps)
  show ?case
  proof (cases "p = cur")
    case True
    then show ?thesis using Cons by simp
  next
    case False
    have "distinct_adj ((map fst segs @ [cur]) @ [p])"
      using Cons.prems False by (simp add: distinct_adj_append_iff)
    then show ?thesis using False Cons.IH [of "segs @ [(cur, idxs)]" p "Suc i" "[i]"] by simp
  qed
qed

lemma append_eq_upt:
  assumes "xs @ ys = [m..<m + n]"
  shows "xs = [m..<m + length xs] \<and> ys = [m + length xs..<m + n] \<and> length xs \<le> n"
proof -
  have len: "length xs + length ys = n"
    using arg_cong [OF assms, of length] by simp
  have "xs = take (length xs) (xs @ ys)" by simp
  also have "\<dots> = [m..<m + length xs]"
    using len by (simp only: assms take_upt) 
  finally have 1: "xs = [m..<m + length xs]" .
  have "ys = drop (length xs) (xs @ ys)" by simp
  also have "\<dots> = [m + length xs..<m + n]"
    by (simp only: assms drop_upt)
  finally have 2: "ys = [m + length xs..<m + n]" .
  from 1 2 len show ?thesis by simp
qed

lemma expand_nth:
  "concat (map snd ss) = [m..<m + n] \<Longrightarrow> i < length ss \<Longrightarrow> j \<in> set (snd (ss ! i)) \<Longrightarrow>
     m \<le> j \<and> expand ss ! (j - m) = fst (ss ! i)"
proof (induction ss arbitrary: m n i)
  case Nil
  then show ?case by simp
next
  case (Cons s ss)
  obtain l ix where s: "s = (l, ix)" by (cases s)
  have "ix @ concat (map snd ss) = [m..<m + n]"
    using Cons.prems(1) s by simp
  from append_eq_upt [OF this]
  have ix: "ix = [m..<m + length ix]"
    and rest: "concat (map snd ss) = [m + length ix..<m + n]"
    and le: "length ix \<le> n" by simp_all
  have ex: "expand (s # ss) = replicate (length ix) l @ expand ss"
    by (simp add: expand_def s)
  show ?case
  proof (cases i)
    case 0
    then have "j \<in> set ix" using Cons.prems(3) s by simp
    then have "j \<in> set [m..<m + length ix]" using ix by simp
    then have "m \<le> j" "j - m < length ix" by auto
    then show ?thesis using 0 s ex by (simp add: nth_append)
  next
    case (Suc i')
    have rest': "concat (map snd ss) = [(m + length ix)..<(m + length ix) + (n - length ix)]"
      using rest le by simp
    have "i' < length ss" "j \<in> set (snd (ss ! i'))"
      using Cons.prems Suc by simp_all
    from Cons.IH [OF rest' this]
    have "m + length ix \<le> j" "expand ss ! (j - (m + length ix)) = fst (ss ! i')" by simp_all
    then have "m \<le> j" "\<not> j - m < length ix" "j - m - length ix = j - (m + length ix)"
      by simp_all
    then show ?thesis
      using Suc ex \<open>expand ss ! (j - (m + length ix)) = fst (ss ! i')\<close>
      by (simp add: nth_append)
  qed
qed

section \<open>Facts about the flipping loop\<close>

lemma flip_step_map_snd: "map snd (flip_step mn mx i ss) = map snd ss"
proof (cases "i < length ss")
  case True
  then have "(map snd ss)[i := snd (ss ! i)] = map snd ss"
    by (simp add: list_update_same_conv)
  then have "\<And>l ix. ss ! i = (l, ix) \<Longrightarrow> (map snd ss)[i := ix] = map snd ss"
    by simp
  then show ?thesis
    by (simp add: flip_step_def Let_def map_update split: prod.splits)
next
  case False
  then show ?thesis
    by (simp add: flip_step_def Let_def list_update_beyond split: prod.splits)
qed

lemma flip_step_length: "length (flip_step mn mx i ss) = length ss"
  using arg_cong [OF flip_step_map_snd, of length] by simp

lemma flip_step_other: "j \<noteq> i \<Longrightarrow> flip_step mn mx i ss ! j = ss ! j"
  by (simp add: flip_step_def Let_def split: prod.splits)

lemma flip_step_self:
  "i < length ss \<Longrightarrow>
   flip_step mn mx i ss ! i =
     (if int (length (snd (ss ! i))) \<le> mx
         \<and> fst (ss ! (i - Suc 0)) \<noteq> fst (ss ! i) \<and> fst (ss ! (Suc i)) \<noteq> fst (ss ! i)
         \<and> mn \<le> int (length (snd (ss ! (i - Suc 0))))
         \<and> mn \<le> int (length (snd (ss ! (Suc i))))
      then (new_label (fst (ss ! i)), snd (ss ! i))
      else ss ! i)"
  by (simp add: flip_step_def Let_def split: prod.splits)

lemma fold_upt_Suc: "a \<le> k \<Longrightarrow> fold f [a..<Suc k] s = f k (fold f [a..<k] s)"
  by simp

lemma flip_prefix_map_snd: "map snd (fold (flip_step mn mx) [Suc 0..<k] ss) = map snd ss"
  by (induction k) (simp_all add: flip_step_map_snd)

lemma flip_prefix_length: "length (fold (flip_step mn mx) [Suc 0..<k] ss) = length ss"
  using arg_cong [OF flip_prefix_map_snd, of length] by simp

lemma flip_prefix_untouched:
  "k \<le> j \<or> j = 0 \<Longrightarrow> fold (flip_step mn mx) [Suc 0..<k] ss ! j = ss ! j"
proof (induction k)
  case 0
  show ?case by simp
next
  case (Suc k)
  show ?case
  proof (cases "Suc 0 \<le> k")
    case True
    then have "j \<noteq> k" using Suc.prems by auto
    moreover have "k \<le> j \<or> j = 0" using Suc.prems by auto
    ultimately show ?thesis using True Suc.IH by (simp add: flip_step_other)
  next
    case False
    then show ?thesis by simp
  qed
qed

lemma flip_prefix_stable:
  "j < k \<Longrightarrow> k \<le> k' \<Longrightarrow>
     fold (flip_step mn mx) [Suc 0..<k'] ss ! j = fold (flip_step mn mx) [Suc 0..<k] ss ! j"
proof (induction k')
  case 0
  then show ?case by simp
next
  case (Suc k')
  show ?case
  proof (cases "k = Suc k'")
    case True
    then show ?thesis by simp
  next
    case False
    then have le: "k \<le> k'" using Suc.prems by simp
    then have "j \<noteq> k'" "Suc 0 \<le> k'" using Suc.prems by auto
    then show ?thesis using Suc.IH [OF Suc.prems(1) le] by (simp add: flip_step_other)
  qed
qed

lemma flip_loop_map_snd: "map snd (flip_loop mn mx ss) = map snd ss"
  by (simp add: flip_loop_def flip_prefix_map_snd)

lemma flip_loop_length: "length (flip_loop mn mx ss) = length ss"
  by (simp add: flip_loop_def flip_prefix_length)

lemma flip_loop_first: "flip_loop mn mx ss ! 0 = ss ! 0"
  by (simp add: flip_loop_def flip_prefix_untouched)

lemma flip_loop_last: "flip_loop mn mx ss ! (length ss - Suc 0) = ss ! (length ss - Suc 0)"
  by (simp add: flip_loop_def flip_prefix_untouched)

lemma flip_loop_interior:
  assumes "0 < i" and "Suc i < length ss"
  shows "flip_loop mn mx ss ! i =
     (if int (length (snd (ss ! i))) \<le> mx
         \<and> fst (flip_loop mn mx ss ! (i - Suc 0)) \<noteq> fst (ss ! i)
         \<and> fst (ss ! (Suc i)) \<noteq> fst (ss ! i)
         \<and> mn \<le> int (length (snd (ss ! (i - Suc 0))))
         \<and> mn \<le> int (length (snd (ss ! (Suc i))))
      then (new_label (fst (ss ! i)), snd (ss ! i))
      else ss ! i)"
proof -
  let ?F = "\<lambda>k. fold (flip_step mn mx) [Suc 0..<k] ss"
  have fin: "flip_loop mn mx ss = ?F (length ss - Suc 0)" by (simp add: flip_loop_def)
  have cur: "?F i ! i = ss ! i" by (simp add: flip_prefix_untouched)
  have nxt: "?F i ! (Suc i) = ss ! (Suc i)" by (simp add: flip_prefix_untouched)
  have prv: "?F i ! (i - Suc 0) = flip_loop mn mx ss ! (i - Suc 0)"
  proof (cases "i - Suc 0 = 0")
    case True
    then show ?thesis by (simp add: flip_loop_first flip_prefix_untouched)
  next
    case False
    have "i - Suc 0 < i" "i \<le> length ss - Suc 0" using assms by simp_all
    from flip_prefix_stable [OF this] show ?thesis by (simp add: fin)
  qed
  have len: "length (snd (flip_loop mn mx ss ! (i - Suc 0))) = length (snd (ss ! (i - Suc 0)))"
  proof -
    have "i - Suc 0 < length ss" using assms by simp
    then have "snd (flip_loop mn mx ss ! (i - Suc 0)) = map snd (flip_loop mn mx ss) ! (i - Suc 0)"
      by (simp add: flip_loop_length)
    also have "\<dots> = snd (ss ! (i - Suc 0))"
      using \<open>i - Suc 0 < length ss\<close> by (simp only: flip_loop_map_snd) simp
    finally show ?thesis by simp
  qed
  have "i < Suc i" "Suc i \<le> length ss - Suc 0" using assms by simp_all
  from flip_prefix_stable [OF this]
  have "flip_loop mn mx ss ! i = ?F (Suc i) ! i" by (simp only: fin)
  also have "\<dots> = flip_step mn mx i (?F i) ! i" using assms by simp
  also have "\<dots> =
     (if int (length (snd (?F i ! i))) \<le> mx
         \<and> fst (?F i ! (i - Suc 0)) \<noteq> fst (?F i ! i) \<and> fst (?F i ! (Suc i)) \<noteq> fst (?F i ! i)
         \<and> mn \<le> int (length (snd (?F i ! (i - Suc 0))))
         \<and> mn \<le> int (length (snd (?F i ! (Suc i))))
      then (new_label (fst (?F i ! i)), snd (?F i ! i))
      else ?F i ! i)"
    using assms by (intro flip_step_self) (simp add: flip_prefix_length)
  finally show ?thesis by (simp only: cur nxt prv len)
qed

section \<open>Facts about the segmentation of a prediction list\<close>

lemma expand_length: "length (expand ss) = length (concat (map snd ss))"
  by (induction ss) (auto simp: expand_def)

lemma segments_of_nonempty_input:
  "predictions \<noteq> [] \<Longrightarrow> \<exists>segments. segments_of predictions = Inr segments"
  by (cases predictions) (simp_all add: segments_of_def)

lemma segments_of_indices:
  "segments_of predictions = Inr segments \<Longrightarrow>
     concat (map snd segments) = [0..<length predictions]"
proof (cases predictions)
  case Nil
  assume "segments_of predictions = Inr segments"
  with Nil show ?thesis by (simp add: segments_of_def)
next
  case (Cons p ps)
  assume "segments_of predictions = Inr segments"
  then have "segments = group_loop ps 1 p [0] []"
    using Cons by (simp add: segments_of_def)
  then have "concat (map snd segments) = [0] @ [1..<1 + length ps]"
    by (simp only: group_loop_indices) simp
  also have "\<dots> = 0 # [Suc 0..<Suc (length ps)]" by simp
  also have "\<dots> = [0..<Suc (length ps)]"
    by (rule upt_conv_Cons [symmetric]) simp
  finally show ?thesis using Cons by simp
qed

lemma segments_of_expand:
  "segments_of predictions = Inr segments \<Longrightarrow> expand segments = predictions"
proof (cases predictions)
  case Nil
  assume "segments_of predictions = Inr segments"
  with Nil show ?thesis by (simp add: segments_of_def)
next
  case (Cons p ps)
  assume "segments_of predictions = Inr segments"
  then have "segments = group_loop ps 1 p [0] []"
    using Cons by (simp add: segments_of_def)
  then have "expand segments = expand [] @ replicate (length [0::nat]) p @ ps"
    by (simp only: group_loop_expand)
  then show ?thesis using Cons by (simp add: expand_def)
qed

lemma segments_of_nonempty:
  "segments_of predictions = Inr segments \<Longrightarrow> \<forall>s\<in>set segments. snd s \<noteq> []"
proof (cases predictions)
  case Nil
  assume "segments_of predictions = Inr segments"
  with Nil show ?thesis by (simp add: segments_of_def)
next
  case (Cons p ps)
  assume "segments_of predictions = Inr segments"
  then have "segments = group_loop ps 1 p [0] []"
    using Cons by (simp add: segments_of_def)
  moreover have "\<forall>s\<in>set (group_loop ps 1 p [0] []). snd s \<noteq> []"
    by (rule group_loop_nonempty) simp_all
  ultimately show ?thesis by simp
qed

lemma segments_of_distinct_adj:
  "segments_of predictions = Inr segments \<Longrightarrow> distinct_adj (map fst segments)"
proof (cases predictions)
  case Nil
  assume "segments_of predictions = Inr segments"
  with Nil show ?thesis by (simp add: segments_of_def)
next
  case (Cons p ps)
  assume "segments_of predictions = Inr segments"
  then have "segments = group_loop ps 1 p [0] []"
    using Cons by (simp add: segments_of_def)
  moreover have "distinct_adj (map fst (group_loop ps 1 p [0] []))"
    by (rule group_loop_distinct_adj) simp
  ultimately show ?thesis by simp
qed

lemma segments_of_not_Nil: "segments_of predictions = Inr segments \<Longrightarrow> segments \<noteq> []"
proof (cases predictions)
  case Nil
  assume "segments_of predictions = Inr segments"
  with Nil show ?thesis by (simp add: segments_of_def)
next
  case (Cons p ps)
  assume "segments_of predictions = Inr segments"
  from segments_of_indices [OF this] Cons show ?thesis by auto
qed

lemma segment_label:
  assumes "segments_of predictions = Inr segments"
    and "i < length segments" and "j \<in> set (snd (segments ! i))"
  shows "predictions ! j = fst (segments ! i)"
proof -
  have "concat (map snd segments) = [0..<0 + length predictions]"
    using segments_of_indices [OF assms(1)] by simp
  from expand_nth [OF this assms(2) assms(3)] segments_of_expand [OF assms(1)]
  show ?thesis by simp
qed

lemma relabelled_nth:
  assumes "segments_of predictions = Inr segments"
    and "map snd segments' = map snd segments"
    and "i < length segments" and "j \<in> set (snd (segments ! i))"
  shows "expand segments' ! j = fst (segments' ! i)"
proof -
  have len: "length segments' = length segments"
    using arg_cong [OF assms(2), of length] by simp
  have 1: "concat (map snd segments') = [0..<0 + length predictions]"
    using segments_of_indices [OF assms(1)] assms(2) by simp
  have 2: "i < length segments'" using assms(3) len by simp
  have "snd (segments' ! i) = map snd segments' ! i" using 2 by simp
  also have "\<dots> = snd (segments ! i)" using assms(3) by (simp only: assms(2)) simp
  finally have 3: "j \<in> set (snd (segments' ! i))" using assms(4) by simp
  from expand_nth [OF 1 2 3] show ?thesis by simp
qed

lemma corrected_nth:
  assumes "segments_of predictions = Inr segments"
    and "i < length segments" and "j \<in> set (snd (segments ! i))"
  shows "expand (flip_loop mn mx segments) ! j = fst (flip_loop mn mx segments ! i)"
  using relabelled_nth [OF assms(1) flip_loop_map_snd assms(2) assms(3)] .

lemma corrected_length:
  assumes "segments_of predictions = Inr segments"
  shows "length (expand (flip_loop mn mx segments)) = length predictions"
  using segments_of_indices [OF assms]
  by (simp add: expand_length flip_loop_map_snd)

section \<open>The flipping loop and the reference pass\<close>

lemma reference_pass_length: "length (reference_pass mn mx ss) = length ss"
  by (simp add: reference_pass_def)

lemma opposite_category_new_label:
  "l \<noteq> Unknown \<Longrightarrow> opposite_category l = Some (new_label l)"
  by (cases l) (simp_all add: new_label_def)

lemma segment_label_in_predictions:
  assumes "segments_of predictions = Inr segments" and "s \<in> set segments"
  shows "fst s \<in> set predictions"
proof -
  obtain i where i: "i < length segments" "segments ! i = s"
    using assms(2) by (auto simp: in_set_conv_nth)
  have "snd s \<noteq> []" using segments_of_nonempty [OF assms(1)] assms(2) by simp
  then obtain j where j: "j \<in> set (snd (segments ! i))"
    using i(2) by (cases "snd s") auto
  have "j \<in> set (concat (map snd segments))"
    using i(1) j by (auto intro!: bexI [of _ "segments ! i"])
  then have "j < length predictions"
    by (simp only: segments_of_indices [OF assms(1)]) simp
  then have "predictions ! j \<in> set predictions" by simp
  then show ?thesis using segment_label [OF assms(1) i(1) j] i(2) by simp
qed

lemma flip_loop_eq_reference_pass:
  assumes "mx < mn \<or> mx < 1" and "\<forall>s\<in>set ss. snd s \<noteq> []"
    and "\<forall>s\<in>set ss. fst s \<noteq> Unknown"
  shows "flip_loop mn mx ss = reference_pass mn mx ss"
proof (rule nth_equalityI)
  show "length (flip_loop mn mx ss) = length (reference_pass mn mx ss)"
    by (simp add: flip_loop_length reference_pass_length)
next
  fix i assume "i < length (flip_loop mn mx ss)"
  then have i: "i < length ss" by (simp add: flip_loop_length)
  have "fst (ss ! i) \<noteq> Unknown" using assms(3) i by simp
  then have opp: "opposite_category (fst (ss ! i)) = Some (new_label (fst (ss ! i)))"
    by (rule opposite_category_new_label)
  have ref: "reference_pass mn mx ss ! i =
      (if 0 < i \<and> i + 1 < length ss \<and> spec_flip_condition mn mx ss i
       then (new_label (fst (ss ! i)), snd (ss ! i)) else ss ! i)"
    using i by (simp add: reference_pass_def opp)
  show "flip_loop mn mx ss ! i = reference_pass mn mx ss ! i"
  proof (cases "0 < i \<and> Suc i < length ss")
    case False
    then have "i = 0 \<or> i = length ss - Suc 0" using i by auto
    then have "flip_loop mn mx ss ! i = ss ! i"
      using flip_loop_first [of mn mx ss] flip_loop_last [of mn mx ss] by auto
    then show ?thesis using False ref by auto
  next
    case True
    then have int: "0 < i" "Suc i < length ss" by simp_all
    have pos: "1 \<le> int (length (snd (ss ! i)))"
      using assms(2) i by (cases "snd (ss ! i)") auto
    have prev: "fst (flip_loop mn mx ss ! (i - Suc 0)) = fst (ss ! (i - Suc 0))"
      if le: "int (length (snd (ss ! i))) \<le> mx"
    proof (cases "i - Suc 0 = 0")
      case True
      then show ?thesis by (simp add: flip_loop_first)
    next
      case False
      then have p: "0 < i - Suc 0" "Suc (i - Suc 0) < length ss" using i by simp_all
      have "\<not> mn \<le> int (length (snd (ss ! i)))" using assms(1) le pos by auto
      then show ?thesis
        using flip_loop_interior [OF p, of mn mx] int(1) by simp
    qed
    show ?thesis
      using flip_loop_interior [OF int, of mn mx] ref True prev
      by (auto simp: spec_flip_condition_def)
  qed
qed

section \<open>Facts about chunking\<close>

lemma slice_ms_full_chunk:
  assumes "Suc i * c \<le> length audio"
  shows "slice_ms audio (int i * int c) (int i * int c + int c) = take c (drop (i * c) audio)"
proof -
  have le: "i * c \<le> length audio" "i * c + c \<le> length audio"
    using assms by simp_all
  have s: "min (int i * int c) (int (length audio)) = int (i * c)"
    using le(1) by (simp add: min_def flip: of_nat_mult) 
  have e: "min (int i * int c + int c) (int (length audio)) = int (i * c + c)"
    using le(2) by (simp add: min_def flip: of_nat_mult of_nat_add)
  show ?thesis
    by (simp only: slice_ms_def Let_def s e nat_int) simp
qed

lemma concat_full_chunks:
  "concat (map (\<lambda>i. take c (drop (i * c) xs)) [0..<n]) = take (n * c) xs"
proof (induction n)
  case 0
  show ?case by simp
next
  case (Suc n)
  have "Suc n * c = n * c + c" by simp
  then have "take (Suc n * c) xs = take (n * c) xs @ take c (drop (n * c) xs)"
    by (simp only: take_add)
  with Suc show ?case by simp
qed

lemma make_chunks_two_seconds: "make_chunks (replicate 2000 (0::nat)) 1 = Inr [replicate 1000 0, replicate 1000 0]"
  by (simp add: make_chunks_def slice_ms_def Let_def upt_rec min_def)

section \<open>Facts about the classification of the chunks\<close>







section \<open>Facts about reconstruct_audio\<close>

lemma zip_upt_Cons:
  "zip [i..<i + length (c # rest)] (c # rest) = (i, c) # zip [Suc i..<Suc i + length rest] rest"
proof -
  have "i < i + length (c # rest)" by simp
  then have "[i..<i + length (c # rest)] = i # [Suc i..<Suc i + length rest]"
    by (simp only: upt_conv_Cons) simp
  then show ?thesis by simp
qed

lemma zip_upt_nth: "zip [0..<length xs] xs = map (\<lambda>i. (i, xs ! i)) [0..<length xs]"
  by (rule nth_equalityI) simp_all

lemma reconstruct_loop_files:
  assumes "i + length chunks \<le> length cp" and "\<forall>k<i + length chunks. export_ok k"
  shows "fst (reconstruct_loop export_ok cp d i chunks comb files) =
     files @ map (\<lambda>(k, c). \<lparr>file_dir = cp ! k, file_index = k, file_label = cp ! k, file_data = c\<rparr>)
               (filter (\<lambda>(k, c). cp ! k = A \<or> cp ! k = B) (zip [i..<i + length chunks] chunks))"
  using assms
proof (induction chunks arbitrary: i comb files)
  case Nil
  show ?case by simp
next
  case (Cons c rest)
  have 1: "Suc i + length rest \<le> length cp" using Cons.prems(1) by simp
  have 2: "\<forall>k<Suc i + length rest. export_ok k" using Cons.prems(2) by simp
  have i: "\<not> length cp \<le> i" "export_ok i" using Cons.prems by simp_all
  note IH = Cons.IH [OF 1 2]
  show ?case
    by (simp only: zip_upt_Cons) (simp add: i IH Let_def)
qed


lemma reconstruct_audio_files:
  assumes "length chunks \<le> length corrected" and "\<forall>i<length chunks. export_ok i"
  shows "fst (reconstruct_audio export_ok corrected chunks desired) =
     map (\<lambda>i. \<lparr>file_dir = corrected ! i, file_index = i, file_label = corrected ! i,
               file_data = chunks ! i\<rparr>)
       (filter (\<lambda>i. corrected ! i = A \<or> corrected ! i = B) [0..<length chunks])"
proof -
  have 1: "0 + length chunks \<le> length corrected" using assms(1) by simp
  have 2: "\<forall>k<0 + length chunks. export_ok k" using assms(2) by simp
  show ?thesis
    unfolding reconstruct_audio_def
    by (simp only: reconstruct_loop_files [OF 1 2])
      (simp add: zip_upt_nth filter_map comp_def)
qed


lemma count_index_filter_upt:
  "length (filter (\<lambda>k. P k \<and> k = i) [0..<n]) = (if i < n \<and> P i then 1 else 0)"
  by (induction n) (auto simp: less_Suc_eq)



lemma reconstruct_loop_outcome:
  assumes "i + length chunks \<le> length cp"
  shows "snd (reconstruct_loop export_ok cp d i chunks comb files) =
     (if \<forall>(k, c)\<in>set (zip [i..<i + length chunks] chunks). (cp ! k = A \<or> cp ! k = B) \<longrightarrow> export_ok k
      then Inr (let matching = map snd (filter (\<lambda>(k, c). cp ! k = d) (zip [i..<i + length chunks] chunks))
          in case comb of
               None \<Rightarrow> if matching = [] then None else Some (concat matching)
             | Some track \<Rightarrow> Some (track @ concat matching))
      else Inl ExportError)"
  using assms
proof (induction chunks arbitrary: i comb files)
  case Nil
  show ?case by (simp split: option.splits)
next
  case (Cons c rest)
  have 1: "Suc i + length rest \<le> length cp" using Cons.prems(1) by simp
  have i: "\<not> length cp \<le> i" using Cons.prems by simp
  define zs where "zs = zip [Suc i..<Suc i + length rest] rest"
  have z: "zip [i..<i + length (c # rest)] (c # rest) = (i, c) # zs"
    by (simp only: zip_upt_Cons zs_def)
  have IH: "snd (reconstruct_loop export_ok cp d (Suc i) rest comb' files') =
     (if \<forall>(k, c)\<in>set zs. (cp ! k = A \<or> cp ! k = B) \<longrightarrow> export_ok k
      then Inr (let matching = map snd (filter (\<lambda>(k, c). cp ! k = d) zs)
          in case comb' of
               None \<Rightarrow> if matching = [] then None else Some (concat matching)
             | Some track \<Rightarrow> Some (track @ concat matching))
      else Inl ExportError)" for comb' files'
    unfolding zs_def by (rule Cons.IH [OF 1])
  show ?case
    by (simp only: z) (auto simp: i IH Let_def split: option.splits)
qed

lemma reconstruct_audio_outcome:
  assumes "length chunks \<le> length corrected"
  shows "snd (reconstruct_audio export_ok corrected chunks desired) =
     (if \<forall>i<length chunks. (corrected ! i = A \<or> corrected ! i = B) \<longrightarrow> export_ok i
      then Inr (if \<exists>i<length chunks. corrected ! i = desired
          then Some (concat (map (\<lambda>i. chunks ! i)
                       (filter (\<lambda>i. corrected ! i = desired) [0..<length chunks])))
          else None)
      else Inl ExportError)"
proof -
  have 1: "0 + length chunks \<le> length corrected" using assms(1) by simp
  have m: "map snd (filter (\<lambda>(k, c). corrected ! k = desired) (zip [0..<0 + length chunks] chunks))
      = map (\<lambda>i. chunks ! i) (filter (\<lambda>i. corrected ! i = desired) [0..<length chunks])"
    by (simp add: zip_upt_nth filter_map comp_def)
  have e: "(filter (\<lambda>i. corrected ! i = desired) [0..<length chunks] = [])
      \<longleftrightarrow> \<not> (\<exists>i<length chunks. corrected ! i = desired)"
    by (auto simp: filter_empty_conv)
  have a: "(\<forall>(k, c)\<in>set (zip [0..<0 + length chunks] chunks).
              (corrected ! k = A \<or> corrected ! k = B) \<longrightarrow> export_ok k)
      \<longleftrightarrow> (\<forall>i<length chunks. (corrected ! i = A \<or> corrected ! i = B) \<longrightarrow> export_ok i)"
    by (auto simp: zip_upt_nth)
  show ?thesis
    unfolding reconstruct_audio_def
    by (simp only: reconstruct_loop_outcome [OF 1] m a Let_def) (auto simp: e)
qed

section \<open>Properties of the Heuristic Corrector\<close>

text \<open>
  C10. For a non-empty prediction list of length \<open>N\<close>, step 1 returns a segment list whose
  index lists, concatenated in order, are exactly \<open>0, 1, ..., N - 1\<close>: every index
  belongs to one segment, none is skipped or repeated. No segment is empty, every index of a
  segment carries the segment's label, and neighbouring segments have different labels (the
  runs are maximal). The corrected list is returned and has length \<open>N\<close>.
\<close>

theorem segmentation_partitions_indices:
  assumes "predictions \<noteq> []"
  shows "\<exists>segments corrected.
     segments_of predictions = Inr segments \<and>
     concat (map snd segments) = [0..<length predictions] \<and>
     (\<forall>s\<in>set segments. snd s \<noteq> []) \<and>
     (\<forall>s\<in>set segments. \<forall>j\<in>set (snd s). predictions ! j = fst s) \<and>
     distinct_adj (map fst segments) \<and>
     apply_forgiving_heuristic predictions min_surround_chunks max_flip_length = Inr corrected \<and>
     length corrected = length predictions"
proof -
  from segments_of_nonempty_input [OF assms]
  obtain segments where seg: "segments_of predictions = Inr segments" ..
  have lab: "\<forall>s\<in>set segments. \<forall>j\<in>set (snd s). predictions ! j = fst s"
  proof (intro ballI)
    fix s j assume "s \<in> set segments" and j: "j \<in> set (snd s)"
    then obtain i where i: "i < length segments" "segments ! i = s"
      by (auto simp: in_set_conv_nth)
    with segment_label [OF seg, of i j] j show "predictions ! j = fst s" by simp
  qed
  have app: "apply_forgiving_heuristic predictions min_surround_chunks max_flip_length
      = Inr (expand (flip_loop min_surround_chunks max_flip_length segments))"
    by (simp add: apply_forgiving_heuristic_def seg)
  show ?thesis
    using seg segments_of_indices [OF seg] segments_of_nonempty [OF seg] lab
      segments_of_distinct_adj [OF seg] app corrected_length [OF seg]
    by blast
qed

theorem segmentation_partitions_indices_witness:
  "[B, A, A, Unknown] \<noteq> [] \<and>
   (\<exists>segments corrected.
     segments_of [B, A, A, Unknown] = Inr segments \<and>
     concat (map snd segments) = [0..<length [B, A, A, Unknown]] \<and>
     (\<forall>s\<in>set segments. snd s \<noteq> []) \<and>
     (\<forall>s\<in>set segments. \<forall>j\<in>set (snd s). [B, A, A, Unknown] ! j = fst s) \<and>
     distinct_adj (map fst segments) \<and>
     apply_forgiving_heuristic [B, A, A, Unknown] 3 2 = Inr corrected \<and>
     length corrected = length [B, A, A, Unknown])"
  using segmentation_partitions_indices [of "[B, A, A, Unknown]" 3 2] by simp

text \<open>
  C9. The first and the last segment keep their label whatever their length and whatever the
  configuration: the loop of step 2 runs over \<open>range(1, len(segments) - 1)\<close> only. Every
  index of the first and of the last segment has the same label in the corrected list as in
  the input. For \<open>[A, B, B, B]\<close> with the default configuration the output equals the input.
\<close>

theorem first_and_last_segment_never_flipped:
  assumes "segments_of predictions = Inr segments"
  shows "(\<exists>corrected.
       apply_forgiving_heuristic predictions min_surround_chunks max_flip_length = Inr corrected \<and>
       (\<forall>j\<in>set (snd (hd segments)) \<union> set (snd (last segments)).
          corrected ! j = predictions ! j)) \<and>
     apply_forgiving_heuristic [A, B, B, B] 3 2 = Inr [A, B, B, B]"
proof -
  let ?fl = "flip_loop min_surround_chunks max_flip_length segments"
  have ne: "segments \<noteq> []" by (rule segments_of_not_Nil [OF assms])
  have app: "apply_forgiving_heuristic predictions min_surround_chunks max_flip_length
      = Inr (expand ?fl)"
    by (simp add: apply_forgiving_heuristic_def assms)
  have first: "expand ?fl ! j = predictions ! j" if "j \<in> set (snd (hd segments))" for j
  proof -
    have 0: "0 < length segments" using ne by simp
    have j: "j \<in> set (snd (segments ! 0))" using that ne by (simp add: hd_conv_nth)
    have "expand ?fl ! j = fst (?fl ! 0)" by (rule corrected_nth [OF assms 0 j])
    also have "\<dots> = fst (segments ! 0)" by (simp add: flip_loop_first)
    also have "\<dots> = predictions ! j" by (rule segment_label [OF assms 0 j, symmetric])
    finally show ?thesis .
  qed
  have lst: "expand ?fl ! j = predictions ! j" if "j \<in> set (snd (last segments))" for j
  proof -
    have n: "length segments - Suc 0 < length segments" using ne by simp
    have j: "j \<in> set (snd (segments ! (length segments - Suc 0)))"
      using that ne by (simp add: last_conv_nth)
    have "expand ?fl ! j = fst (?fl ! (length segments - Suc 0))"
      by (rule corrected_nth [OF assms n j])
    also have "\<dots> = fst (segments ! (length segments - Suc 0))"
      by (simp add: flip_loop_last)
    also have "\<dots> = predictions ! j" by (rule segment_label [OF assms n j, symmetric])
    finally show ?thesis .
  qed
  have ex: "apply_forgiving_heuristic [A, B, B, B] 3 2 = Inr [A, B, B, B]"
    by (simp add: apply_forgiving_heuristic_def segments_of_def flip_loop_def expand_def)
  from app first lst ex show ?thesis by auto
qed

text \<open>C9 at \<open>[A, B, A, A]\<close> with both parameters 1: indices 0, 2 and 3 keep \<open>A\<close>.\<close>

theorem first_and_last_segment_never_flipped_witness:
  "segments_of [A, B, A, A] = Inr [(A, [0]), (B, [1]), (A, [2, 3])] \<and>
   (\<exists>corrected. apply_forgiving_heuristic [A, B, A, A] 1 1 = Inr corrected \<and>
       corrected ! 0 = A \<and> corrected ! 2 = A \<and> corrected ! 3 = A)"
proof -
  have seg: "segments_of [A, B, A, A] = Inr [(A, [0]), (B, [1]), (A, [2, 3])]"
    by (simp add: segments_of_def)
  from first_and_last_segment_never_flipped [OF seg, of 1 1] seg show ?thesis
    by auto
qed

text \<open>
  C1, as the code has it. For an interior segment \<open>i\<close> of the segmentation and every
  configuration, the corrected label of the segment's indices is decided by this condition:
  the segment has at most \<open>max_flip_length\<close> indices, the label the previous segment has
  after the pass has dealt with it (read at any index \<open>k\<close> of that segment in the corrected
  list) and the label of the next segment differ from the segment's label, and both
  neighbours have at least \<open>min_surround_chunks\<close> indices. When the condition holds, a
  segment labelled \<open>A\<close> becomes \<open>B\<close> and a segment labelled \<open>B\<close> becomes \<open>A\<close>; when
  it does not hold, the label is kept.
\<close>

theorem interior_segment_flip_rule:
  assumes "segments_of predictions = Inr segments"
    and "0 < i" and "i + 1 < length segments"
  shows "\<exists>corrected.
     apply_forgiving_heuristic predictions min_surround_chunks max_flip_length = Inr corrected \<and>
     (\<forall>j\<in>set (snd (segments ! i)). \<forall>k\<in>set (snd (segments ! (i - 1))).
        (if int (length (snd (segments ! i))) \<le> max_flip_length
            \<and> corrected ! k \<noteq> fst (segments ! i)
            \<and> fst (segments ! (i + 1)) \<noteq> fst (segments ! i)
            \<and> min_surround_chunks \<le> int (length (snd (segments ! (i - 1))))
            \<and> min_surround_chunks \<le> int (length (snd (segments ! (i + 1))))
         then (fst (segments ! i) = A \<longrightarrow> corrected ! j = B)
            \<and> (fst (segments ! i) = B \<longrightarrow> corrected ! j = A)
         else corrected ! j = fst (segments ! i)))"
proof -
  let ?fl = "flip_loop min_surround_chunks max_flip_length segments"
  have app: "apply_forgiving_heuristic predictions min_surround_chunks max_flip_length
      = Inr (expand ?fl)"
    by (simp add: apply_forgiving_heuristic_def assms(1))
  have i: "i < length segments" "i - Suc 0 < length segments" "Suc i < length segments"
    using assms by simp_all
  have rule: "\<forall>j\<in>set (snd (segments ! i)). \<forall>k\<in>set (snd (segments ! (i - 1))).
        (if int (length (snd (segments ! i))) \<le> max_flip_length
            \<and> expand ?fl ! k \<noteq> fst (segments ! i)
            \<and> fst (segments ! (i + 1)) \<noteq> fst (segments ! i)
            \<and> min_surround_chunks \<le> int (length (snd (segments ! (i - 1))))
            \<and> min_surround_chunks \<le> int (length (snd (segments ! (i + 1))))
         then (fst (segments ! i) = A \<longrightarrow> expand ?fl ! j = B)
            \<and> (fst (segments ! i) = B \<longrightarrow> expand ?fl ! j = A)
         else expand ?fl ! j = fst (segments ! i))"
  proof (intro ballI)
    fix j k
    assume j: "j \<in> set (snd (segments ! i))" and k: "k \<in> set (snd (segments ! (i - 1)))"
    from k have k': "k \<in> set (snd (segments ! (i - Suc 0)))" by simp
    have cj: "expand ?fl ! j = fst (?fl ! i)"
      by (rule corrected_nth [OF assms(1) i(1) j])
    have ck: "expand ?fl ! k = fst (?fl ! (i - Suc 0))"
      by (rule corrected_nth [OF assms(1) i(2) k'])
    let ?c = "int (length (snd (segments ! i))) \<le> max_flip_length
            \<and> fst (?fl ! (i - Suc 0)) \<noteq> fst (segments ! i)
            \<and> fst (segments ! Suc i) \<noteq> fst (segments ! i)
            \<and> min_surround_chunks \<le> int (length (snd (segments ! (i - Suc 0))))
            \<and> min_surround_chunks \<le> int (length (snd (segments ! Suc i)))"
    have fl: "?fl ! i = (if ?c then (new_label (fst (segments ! i)), snd (segments ! i))
        else segments ! i)"
      using flip_loop_interior [OF assms(2) i(3), of min_surround_chunks max_flip_length] .
    show "(if int (length (snd (segments ! i))) \<le> max_flip_length
            \<and> expand ?fl ! k \<noteq> fst (segments ! i)
            \<and> fst (segments ! (i + 1)) \<noteq> fst (segments ! i)
            \<and> min_surround_chunks \<le> int (length (snd (segments ! (i - 1))))
            \<and> min_surround_chunks \<le> int (length (snd (segments ! (i + 1))))
         then (fst (segments ! i) = A \<longrightarrow> expand ?fl ! j = B)
            \<and> (fst (segments ! i) = B \<longrightarrow> expand ?fl ! j = A)
         else expand ?fl ! j = fst (segments ! i))"
    proof (cases ?c)
      case True
      then have "fst (?fl ! i) = new_label (fst (segments ! i))" by (simp only: fl) simp
      with True show ?thesis by (auto simp: cj ck new_label_def)
    next
      case False
      then have "fst (?fl ! i) = fst (segments ! i)" by (simp only: fl) simp
      with False show ?thesis by (auto simp: cj ck)
    qed
  qed
  from app rule show ?thesis by blast
qed

text \<open>
  C1 at \<open>[B, B, B, A, B, B, B, B]\<close> with \<open>min_surround_chunks = 3\<close> and
  \<open>max_flip_length = 2\<close>: the single \<open>A\<close> at index 3 becomes \<open>B\<close>.
\<close>

theorem interior_segment_flip_rule_witness:
  "segments_of [B, B, B, A, B, B, B, B] = Inr [(B, [0, 1, 2]), (A, [3]), (B, [4, 5, 6, 7])] \<and>
   (\<exists>corrected. apply_forgiving_heuristic [B, B, B, A, B, B, B, B] 3 2 = Inr corrected \<and>
      corrected = [B, B, B, B, B, B, B, B])"
proof -
  have seg: "segments_of [B, B, B, A, B, B, B, B]
      = Inr [(B, [0, 1, 2]), (A, [3]), (B, [4, 5, 6, 7])]"
    by (simp add: segments_of_def)
  have i: "(0::nat) < 1" "(1::nat) + 1 < length [(B, [0::nat, 1, 2]), (A, [3]), (B, [4, 5, 6, 7])]"
    by simp_all
  have ex: "apply_forgiving_heuristic [B, B, B, A, B, B, B, B] 3 2 = Inr [B, B, B, B, B, B, B, B]"
    by (simp add: apply_forgiving_heuristic_def segments_of_def flip_loop_def flip_step_def
        expand_def new_label_def)
  from interior_segment_flip_rule [OF seg i, of 3 2] seg ex show ?thesis by simp
qed

text \<open>
  C1 read against the segmentation of step 1 fails. In \<open>[B, A, B, A]\<close> with both
  parameters 1, the interior segment 2 (label \<open>B\<close>, index 2) is short enough, both its
  neighbours in the segmentation are labelled \<open>A\<close> and are long enough, and yet index 2
  keeps \<open>B\<close>: segment 1 was flipped to \<open>B\<close> just before and is read after that.
\<close>

theorem interior_segment_flip_rule_counterexample:
  "segments_of [B, A, B, A] = Inr [(B, [0]), (A, [1]), (B, [2]), (A, [3])] \<and>
   spec_flip_condition 1 1 [(B, [0]), (A, [1]), (B, [2]), (A, [3])] 2 \<and>
   apply_forgiving_heuristic [B, A, B, A] 1 1 = Inr [B, B, B, A]"
  by (simp add: apply_forgiving_heuristic_def segments_of_def flip_loop_def flip_step_def
      expand_def new_label_def spec_flip_condition_def)

text \<open>
  C2, as the code has it. For a prediction list without \<open>Unknown\<close>, when
  \<open>max_flip_length < min_surround_chunks\<close> (the defaults 2 and 3 are such a
  configuration) or \<open>max_flip_length < 1\<close>, the result of the Heuristic Corrector equals
  the result of the reference pass that decides every interior segment from the unmodified
  segment list. The pass runs once.
\<close>

theorem single_pass_against_original_segmentation:
  assumes "max_flip_length < min_surround_chunks \<or> max_flip_length < 1"
    and "Unknown \<notin> set predictions"
  shows "apply_forgiving_heuristic predictions min_surround_chunks max_flip_length
       = reference_heuristic predictions min_surround_chunks max_flip_length"
proof (cases "segments_of predictions")
  case (Inl e)
  then show ?thesis by (simp add: apply_forgiving_heuristic_def reference_heuristic_def)
next
  case (Inr segments)
  have known: "\<forall>s\<in>set segments. fst s \<noteq> Unknown"
  proof
    fix s assume "s \<in> set segments"
    from segment_label_in_predictions [OF Inr this] assms(2)
    show "fst s \<noteq> Unknown" by auto
  qed
  from flip_loop_eq_reference_pass [OF assms(1) segments_of_nonempty [OF Inr] known] Inr
  show ?thesis by (simp add: apply_forgiving_heuristic_def reference_heuristic_def)
qed

text \<open>C2 with the default configuration on a list where one run is flipped.\<close>

theorem single_pass_against_original_segmentation_witness:
  "((2::int) < 3 \<or> (2::int) < 1) \<and> Unknown \<notin> set [A, A, A, B, B, A, A, A, A] \<and>
   apply_forgiving_heuristic [A, A, A, B, B, A, A, A, A] 3 2 = Inr [A, A, A, A, A, A, A, A, A] \<and>
   reference_heuristic [A, A, A, B, B, A, A, A, A] 3 2 = Inr [A, A, A, A, A, A, A, A, A]"
proof -
  have c: "(2::int) < 3 \<or> (2::int) < 1" by simp
  have k: "Unknown \<notin> set [A, A, A, B, B, A, A, A, A]" by simp
  have ex: "apply_forgiving_heuristic [A, A, A, B, B, A, A, A, A] 3 2
      = Inr [A, A, A, A, A, A, A, A, A]"
    by (simp add: apply_forgiving_heuristic_def segments_of_def flip_loop_def flip_step_def
        expand_def new_label_def)
  from single_pass_against_original_segmentation [OF c k] ex c k
  show ?thesis by simp
qed

text \<open>
  C2 for every configuration fails. With both parameters 1 on \<open>[A, B, A, B]\<close> the code
  flips segment 1 and then reads the flipped label as the previous label of segment 2,
  which it therefore keeps; the reference pass flips both.
\<close>

theorem single_pass_against_original_segmentation_counterexample:
  "apply_forgiving_heuristic [A, B, A, B] 1 1 = Inr [A, A, A, B] \<and>
   reference_heuristic [A, B, A, B] 1 1 = Inr [A, A, B, B]"
  by (simp add: apply_forgiving_heuristic_def reference_heuristic_def segments_of_def
      flip_loop_def flip_step_def reference_pass_def spec_flip_condition_def
      expand_def new_label_def upt_rec)

text \<open>
  C3 at a failing input. A chunk whose classification failed (\<open>Unknown\<close>) between three
  chunks \<open>A\<close> and three chunks \<open>B\<close> is an interior segment of length 1 whose neighbours
  differ from it and are long enough; the code relabels it \<open>A\<close>, since the flipped label
  is \<open>'B' if label == 'A' else 'A'\<close>.
\<close>

theorem unknown_segment_flipped_to_A:
  "apply_forgiving_heuristic [A, A, A, Unknown, B, B, B] 3 2 = Inr [A, A, A, A, B, B, B]"
  by (simp add: apply_forgiving_heuristic_def segments_of_def flip_loop_def flip_step_def
      expand_def new_label_def)

section \<open>Properties of the pipeline around the Heuristic Corrector\<close>

text \<open>
  C6. For an audio of \<open>T\<close> milliseconds and a chunk length of \<open>chunk_length_sec > 0\<close>
  seconds, that is \<open>d = 1000 * chunk_length_sec\<close> milliseconds, the chunking loop returns
  exactly \<open>T div d\<close> chunks. Chunk \<open>i\<close> is the \<open>d\<close> milliseconds of the audio that start at
  \<open>i * d\<close> and has length exactly \<open>d\<close>. The chunks concatenated in order are the first
  \<open>(T div d) * d\<close> milliseconds of the audio, so they are contiguous, do not overlap, and the
  remainder shorter than \<open>d\<close> is in no chunk.
\<close>

theorem chunker_produces_full_chunks:
  assumes "0 < chunk_length_sec"
  shows "\<exists>chunks. make_chunks audio chunk_length_sec = Inr chunks \<and>
     length chunks = length audio div (nat chunk_length_sec * 1000) \<and>
     (\<forall>i<length chunks.
        chunks ! i = take (nat chunk_length_sec * 1000) (drop (i * (nat chunk_length_sec * 1000)) audio)
        \<and> length (chunks ! i) = nat chunk_length_sec * 1000) \<and>
     concat chunks = take (length chunks * (nat chunk_length_sec * 1000)) audio"
proof -
  define c where "c = nat chunk_length_sec * 1000"
  define n where "n = length audio div c"
  have c: "0 < c" "chunk_length_sec * 1000 = int c"
    using assms by (simp_all add: c_def)
  have num: "nat (int (length audio) div int c) = n"
    by (simp only: n_def nat_int flip: zdiv_int)
  have nz: "int c \<noteq> 0" using c(1) by simp
  have bound: "Suc i * c \<le> length audio" if "i < n" for i
  proof -
    have "Suc i * c \<le> n * c" using that by (simp only: mult_le_mono1 Suc_leI)
    also have "\<dots> \<le> length audio" by (simp add: n_def)
    finally show ?thesis .
  qed
  have mk: "make_chunks audio chunk_length_sec
      = Inr (map (\<lambda>i. slice_ms audio (int i * int c) (int i * int c + int c)) [0..<n])"
    by (simp only: make_chunks_def Let_def c(2) num nz if_False)
  have eq: "map (\<lambda>i. slice_ms audio (int i * int c) (int i * int c + int c)) [0..<n]
      = map (\<lambda>i. take c (drop (i * c) audio)) [0..<n]"
  proof (rule map_cong)
    show "[0..<n] = [0..<n]" ..
  next
    fix i assume "i \<in> set [0..<n]"
    then have "i < n" by simp
    from slice_ms_full_chunk [OF bound [OF this]]
    show "slice_ms audio (int i * int c) (int i * int c + int c) = take c (drop (i * c) audio)" .
  qed
  let ?chunks = "map (\<lambda>i. take c (drop (i * c) audio)) [0..<n]"
  have 1: "make_chunks audio chunk_length_sec = Inr ?chunks" by (simp only: mk eq)
  have 2: "length ?chunks = n" by simp
  have 3: "?chunks ! i = take c (drop (i * c) audio) \<and> length (?chunks ! i) = c"
    if "i < length ?chunks" for i
  proof -
    have i: "i < n" using that by simp
    from bound [OF i] have "c \<le> length audio - i * c" by simp
    then show ?thesis using i by simp
  qed
  have 4: "concat ?chunks = take (length ?chunks * c) audio"
    by (simp only: concat_full_chunks 2)
  from 1 2 3 4 show ?thesis
    unfolding c_def [symmetric] n_def [symmetric] by blast
qed

text \<open>C6 for 2500 milliseconds and chunks of one second: two chunks, 500 ms dropped.\<close>

theorem chunker_produces_full_chunks_witness:
  "(0::int) < 1 \<and>
   (\<exists>chunks. make_chunks (replicate 2500 (0::nat)) 1 = Inr chunks \<and> length chunks = 2 \<and>
      length (chunks ! 0) = 1000 \<and> length (chunks ! 1) = 1000 \<and>
      concat chunks = replicate 2000 0)"
proof -
  have h: "(0::int) < 1" by simp
  from chunker_produces_full_chunks [OF h, of "replicate 2500 (0::nat)"] h
  show ?thesis by auto
qed



text \<open>
  C4, as the code has it. When the corrected list is as long as the chunk list and no
  export raises, the files written are, in index order, one file per chunk whose corrected
  label is \<open>A\<close> or \<open>B\<close>, in the directory of that corrected label, named after the index
  and that label and holding the chunk's audio. So such a chunk is exported exactly once, and
  a chunk whose corrected label is \<open>Unknown\<close> is not exported. \<open>reconstruct_audio\<close> never
  sees the raw predictions.
\<close>

theorem chunks_exported_by_corrected_label:
  assumes "length corrected = length chunks" and "\<forall>i<length chunks. export_ok i"
  shows "fst (reconstruct_audio export_ok corrected chunks desired) =
       map (\<lambda>i. \<lparr>file_dir = corrected ! i, file_index = i, file_label = corrected ! i,
                 file_data = chunks ! i\<rparr>)
         (filter (\<lambda>i. corrected ! i = A \<or> corrected ! i = B) [0..<length chunks])
     \<and> (\<forall>i<length chunks.
          length (filter (\<lambda>f. file_index f = i)
                    (fst (reconstruct_audio export_ok corrected chunks desired)))
            = (if corrected ! i = A \<or> corrected ! i = B then 1 else 0))"
proof -
  have le: "length chunks \<le> length corrected" using assms(1) by simp
  note files = reconstruct_audio_files [OF le assms(2), of desired]
  have "length (filter (\<lambda>f. file_index f = i)
            (fst (reconstruct_audio export_ok corrected chunks desired)))
        = (if corrected ! i = A \<or> corrected ! i = B then 1 else 0)"
    if "i < length chunks" for i
  proof -
    have "length (filter (\<lambda>f. file_index f = i)
            (fst (reconstruct_audio export_ok corrected chunks desired)))
        = length (filter (\<lambda>k. (corrected ! k = A \<or> corrected ! k = B) \<and> k = i) [0..<length chunks])"
      by (simp only: files) (simp add: filter_map comp_def)
    also have "\<dots> = (if corrected ! i = A \<or> corrected ! i = B then 1 else 0)"
      using that by (simp only: count_index_filter_upt) simp
    finally show ?thesis .
  qed
  with files show ?thesis by blast
qed

text \<open>C4 for three chunks with corrected labels \<open>B\<close>, \<open>Unknown\<close>, \<open>A\<close>: two files.\<close>

theorem chunks_exported_by_corrected_label_witness:
  "length [B, Unknown, A] = length [[1::nat], [2], [3]] \<and>
   exports_succeed 0 \<and> exports_succeed 1 \<and> exports_succeed 2 \<and>
   fst (reconstruct_audio exports_succeed [B, Unknown, A] [[1::nat], [2], [3]] B) =
     [\<lparr>file_dir = B, file_index = 0, file_label = B, file_data = [1]\<rparr>,
      \<lparr>file_dir = A, file_index = 2, file_label = A, file_data = [3]\<rparr>]"
proof -
  have 1: "length [B, Unknown, A] = length [[1::nat], [2], [3]]" by simp
  have 2: "\<forall>i<length [[1::nat], [2], [3]]. exports_succeed i"
    by (simp add: exports_succeed_def)
  have u: "[0..<3] = [0, 1, 2]" by (simp add: upt_rec)
  have 3: "exports_succeed 0 \<and> exports_succeed 1 \<and> exports_succeed 2"
    by (simp add: exports_succeed_def)
  from chunks_exported_by_corrected_label [OF 1 2, of B] 1 3 show ?thesis
    by (simp add: u)
qed

text \<open>
  C4 with the chunks labelled \<open>Unknown\<close> included fails: \<open>None\<close> is not a key of
  \<open>type_dirs\<close>, so for a single chunk with corrected label \<open>Unknown\<close> no file is written.
\<close>

theorem unknown_chunk_not_exported:
  "reconstruct_audio exports_succeed [Unknown] [[1::nat]] B = ([], Inr None)"
  by (simp add: reconstruct_audio_def)

text \<open>
  C7. Let the corrected list be at least as long as the chunk list. When no export of a
  chunk labelled \<open>A\<close> or \<open>B\<close> raises, \<open>reconstruct_audio\<close> returns the concatenation, in
  ascending index order, of the chunks whose corrected label equals the desired label, or
  \<open>None\<close> when there is no such chunk; and whenever it returns, that is what it returns.
  The length of a returned track is the sum of the lengths of those chunks. For \<open>None\<close>,
  \<open>process_audio\<close> writes no output file and prints that no segment was found.
\<close>

theorem combined_track_is_concatenation_of_desired_chunks:
  assumes "length chunks \<le> length corrected"
  shows "((\<forall>i<length chunks. (corrected ! i = A \<or> corrected ! i = B) \<longrightarrow> export_ok i) \<longrightarrow>
        snd (reconstruct_audio export_ok corrected chunks desired) =
          Inr (if \<exists>i<length chunks. corrected ! i = desired
               then Some (concat (map (\<lambda>i. chunks ! i)
                            (filter (\<lambda>i. corrected ! i = desired) [0..<length chunks])))
               else None))
     \<and> (\<forall>combined. snd (reconstruct_audio export_ok corrected chunks desired) = Inr combined \<longrightarrow>
          combined =
            (if \<exists>i<length chunks. corrected ! i = desired
             then Some (concat (map (\<lambda>i. chunks ! i)
                          (filter (\<lambda>i. corrected ! i = desired) [0..<length chunks])))
             else None))
     \<and> (\<forall>track. snd (reconstruct_audio export_ok corrected chunks desired) = Inr (Some track) \<longrightarrow>
          length track = sum_list (map (\<lambda>i. length (chunks ! i))
                            (filter (\<lambda>i. corrected ! i = desired) [0..<length chunks])))
     \<and> save_combined save_ok None = (None, NoSegmentsFound)"
proof -
  note out = reconstruct_audio_outcome [OF assms, of export_ok desired]
  have len: "length (concat (map (\<lambda>i. chunks ! i) (filter (\<lambda>i. corrected ! i = desired) [0..<length chunks])))
      = sum_list (map (\<lambda>i. length (chunks ! i)) (filter (\<lambda>i. corrected ! i = desired) [0..<length chunks]))"
    by (simp add: length_concat comp_def)
  have 1: "(\<forall>i<length chunks. (corrected ! i = A \<or> corrected ! i = B) \<longrightarrow> export_ok i) \<longrightarrow>
        snd (reconstruct_audio export_ok corrected chunks desired) =
          Inr (if \<exists>i<length chunks. corrected ! i = desired
               then Some (concat (map (\<lambda>i. chunks ! i)
                            (filter (\<lambda>i. corrected ! i = desired) [0..<length chunks])))
               else None)"
    by (simp only: out) simp
  have 2: "\<forall>combined. snd (reconstruct_audio export_ok corrected chunks desired) = Inr combined \<longrightarrow>
          combined =
            (if \<exists>i<length chunks. corrected ! i = desired
             then Some (concat (map (\<lambda>i. chunks ! i)
                          (filter (\<lambda>i. corrected ! i = desired) [0..<length chunks])))
             else None)"
    by (simp only: out) (auto split: if_splits)
  have 3: "\<forall>track. snd (reconstruct_audio export_ok corrected chunks desired) = Inr (Some track) \<longrightarrow>
          length track = sum_list (map (\<lambda>i. length (chunks ! i))
                            (filter (\<lambda>i. corrected ! i = desired) [0..<length chunks]))"
  proof (intro allI impI)
    fix track
    assume t: "snd (reconstruct_audio export_ok corrected chunks desired) = Inr (Some track)"
    with 2 have "Some track =
            (if \<exists>i<length chunks. corrected ! i = desired
             then Some (concat (map (\<lambda>i. chunks ! i)
                          (filter (\<lambda>i. corrected ! i = desired) [0..<length chunks])))
             else None)" by blast
    then have "track = concat (map (\<lambda>i. chunks ! i)
                          (filter (\<lambda>i. corrected ! i = desired) [0..<length chunks]))"
      by (simp split: if_splits)
    then show "length track = sum_list (map (\<lambda>i. length (chunks ! i))
                            (filter (\<lambda>i. corrected ! i = desired) [0..<length chunks]))"
      by (simp only: len)
  qed
  have 4: "save_combined save_ok None = (None, NoSegmentsFound)"
    by (simp add: save_combined_def)
  from 1 2 3 4 show ?thesis by blast
qed

text \<open>
  C7 for three chunks with corrected labels \<open>B\<close>, \<open>Unknown\<close>, \<open>B\<close>: the track for
  \<open>B\<close> is chunk 0 followed by chunk 2, and there is no track for \<open>A\<close>.
\<close>

theorem combined_track_is_concatenation_of_desired_chunks_witness:
  "length [[1::nat], [2, 3], [4]] \<le> length [B, Unknown, B] \<and>
   exports_succeed 0 \<and> exports_succeed 2 \<and>
   snd (reconstruct_audio exports_succeed [B, Unknown, B] [[1::nat], [2, 3], [4]] B)
     = Inr (Some [1, 4]) \<and>
   snd (reconstruct_audio exports_succeed [B, Unknown, B] [[1::nat], [2, 3], [4]] A)
     = Inr None"
proof -
  have 1: "length [[1::nat], [2, 3], [4]] \<le> length [B, Unknown, B]" by simp
  have 2: "\<forall>i<length [[1::nat], [2, 3], [4]].
      ([B, Unknown, B] ! i = A \<or> [B, Unknown, B] ! i = B) \<longrightarrow> exports_succeed i"
    by (simp add: exports_succeed_def)
  have u: "[0..<length [[1::nat], [2, 3], [4]]] = [0, 1, 2]" by (simp add: upt_rec)
  have yes: "\<exists>i<length [[1::nat], [2, 3], [4]]. [B, Unknown, B] ! i = B"
    by (rule exI [of _ 0]) simp
  have no: "\<not> (\<exists>i<length [[1::nat], [2, 3], [4]]. [B, Unknown, B] ! i = A)"
  proof (intro notI, elim exE conjE)
    fix i assume i: "i < length [[1::nat], [2, 3], [4]]" and l: "[B, Unknown, B] ! i = A"
    from i have "i = 0 \<or> i = 1 \<or> i = 2" by auto
    with l show False by auto
  qed
  from combined_track_is_concatenation_of_desired_chunks
      [OF 1, where desired = B and save_ok = True and export_ok = exports_succeed] 2
  have "snd (reconstruct_audio exports_succeed [B, Unknown, B] [[1::nat], [2, 3], [4]] B) =
      Inr (if \<exists>i<length [[1::nat], [2, 3], [4]]. [B, Unknown, B] ! i = B
           then Some (concat (map (\<lambda>i. [[1::nat], [2, 3], [4]] ! i)
                  (filter (\<lambda>i. [B, Unknown, B] ! i = B) [0..<length [[1::nat], [2, 3], [4]]])))
           else None)" by blast
  then have b: "snd (reconstruct_audio exports_succeed [B, Unknown, B] [[1::nat], [2, 3], [4]] B)
      = Inr (Some [1, 4])"
    by (simp only: yes if_True u) auto
  from combined_track_is_concatenation_of_desired_chunks
      [OF 1, where desired = A and save_ok = True and export_ok = exports_succeed] 2
  have "snd (reconstruct_audio exports_succeed [B, Unknown, B] [[1::nat], [2, 3], [4]] A) =
      Inr (if \<exists>i<length [[1::nat], [2, 3], [4]]. [B, Unknown, B] ! i = A
           then Some (concat (map (\<lambda>i. [[1::nat], [2, 3], [4]] ! i)
                  (filter (\<lambda>i. [B, Unknown, B] ! i = A) [0..<length [[1::nat], [2, 3], [4]]])))
           else None)" by blast
  then have a: "snd (reconstruct_audio exports_succeed [B, Unknown, B] [[1::nat], [2, 3], [4]] A)
      = Inr None"
    by (simp only: no if_False)
  have 3: "exports_succeed 0 \<and> exports_succeed 2"
    by (simp add: exports_succeed_def)
  from 1 3 a b show ?thesis by blast
qed

text \<open>
  C8 at a failing input. \<open>chunk.export\<close> in the loop of \<open>reconstruct_audio\<close> is not inside
  a \<open>try\<close>. With two chunks labelled \<open>B\<close>, when the export of chunk 0 raises, the
  function ends with that error: chunk 1 is neither exported nor added to a combined track,
  and \<open>process_audio\<close> ends with the error as well, without writing an output file.
\<close>

theorem export_failure_aborts_run:
  "reconstruct_audio (export_fails_at 0) [B, B] [[1::nat], [2]] B = ([], Inl ExportError) \<and>
   process_audio (replicate 2000 (0::nat)) 1 (inference_failing_at 2) [1, 0] (export_fails_at 0) True
     = ([], Inl ExportError)"
proof -
  have pb: "strip ''Prediction: B'' = ''Prediction: B''"
    by (simp add: strip_def is_space_def)
  have cl: "classify_chunks (inference_failing_at 2) [1, 0] [replicate 1000 (0::nat), replicate 1000 0]
      = [B, B]"
    by (simp add: classify_chunks_def store_result_def process_chunk_def run_inference_def
        inference_failing_at_def pb)
  have he: "apply_forgiving_heuristic [B, B] 3 2 = Inr [B, B]"
    by (simp add: apply_forgiving_heuristic_def segments_of_def flip_loop_def expand_def)
  have re: "reconstruct_audio (export_fails_at 0) [B, B] [replicate 1000 (0::nat), replicate 1000 0] B
      = ([], Inl ExportError)"
    by (simp add: reconstruct_audio_def export_fails_at_def)
  have 1: "reconstruct_audio (export_fails_at 0) [B, B] [[1::nat], [2]] B = ([], Inl ExportError)"
    by (simp add: reconstruct_audio_def export_fails_at_def)
  have 2: "process_audio (replicate 2000 (0::nat)) 1 (inference_failing_at 2) [1, 0]
      (export_fails_at 0) True = ([], Inl ExportError)"
    by (simp only: process_audio_def make_chunks_two_seconds cl he re Let_def sum.case prod.case)
  from 1 2 show ?thesis ..
qed

end
